theory Spec2Isabelle
  imports Main "HOL-Library.Sublist"
begin

section \<open>Python strings\<close>

text \<open>
  The monitor of \<^verbatim>\<open>speech_monitor.py\<close> works on Python \<^verbatim>\<open>str\<close> values. A string is
  modelled as a list of characters, each character being a code point below 256
  (Latin-1, which contains ASCII). On these code points \<^verbatim>\<open>str.lower\<close> maps one
  character to one character and \<^verbatim>\<open>str.isspace\<close> holds for twelve of them.
\<close>

definition isspace :: "char \<Rightarrow> bool" where
  "isspace c = (of_char c \<in> set [9, 10, 11, 12, 13, 28, 29, 30, 31, 32, 133, 160 :: nat])"

definition lower_char :: "char \<Rightarrow> char" where
  "lower_char c =
     (let n = (of_char c :: nat)
      in if (65 \<le> n \<and> n \<le> 90) \<or> (192 \<le> n \<and> n \<le> 222 \<and> n \<noteq> 215)
         then char_of (n + 32) else c)"

text \<open>\<^verbatim>\<open>s.lower()\<close>\<close>

definition str_lower :: "string \<Rightarrow> string" where
  "str_lower s = map lower_char s"

text \<open>\<^verbatim>\<open>sub in s\<close> on strings: \<open>sub\<close> occurs in \<open>s\<close> as a contiguous block.\<close>

definition str_in :: "string \<Rightarrow> string \<Rightarrow> bool" where
  "str_in sub s = sublist sub s"

text \<open>
  \<^verbatim>\<open>s.split()\<close> without arguments: the maximal runs of non-whitespace characters, in
  order. \<open>tok\<close> is the token being read.
\<close>

fun split_from :: "string \<Rightarrow> string \<Rightarrow> string list" where
  "split_from tok [] = (if tok = [] then [] else [tok])"
| "split_from tok (c # cs) =
     (if isspace c
      then (if tok = [] then split_from [] cs else tok # split_from [] cs)
      else split_from (tok @ [c]) cs)"

definition str_split :: "string \<Rightarrow> string list" where
  "str_split s = split_from [] s"

text \<open>\<^verbatim>\<open>sep.join(words)\<close>\<close>

fun str_join :: "string \<Rightarrow> string list \<Rightarrow> string" where
  "str_join sep [] = []"
| "str_join sep [w] = w"
| "str_join sep (w # v # ws) = w @ sep @ str_join sep (v # ws)"

text \<open>
  \<^verbatim>\<open>s.replace(old, new)\<close>: every non-overlapping occurrence of \<open>old\<close>, leftmost first.
  With an empty \<open>old\<close> Python puts \<open>new\<close> before every character and at the end.
\<close>

function replace_nonempty :: "string \<Rightarrow> string \<Rightarrow> string \<Rightarrow> string" where
  "replace_nonempty old new s =
     (if old = [] \<or> s = [] then s
      else if prefix old s then new @ replace_nonempty old new (drop (length old) s)
      else hd s # replace_nonempty old new (tl s))"
  by pat_completeness auto
termination
  by (relation "measure (\<lambda>(old, new, s). length s)") (auto simp: neq_Nil_conv)

definition str_replace :: "string \<Rightarrow> string \<Rightarrow> string \<Rightarrow> string" where
  "str_replace s old new =
     (if old = [] then new @ concat (map (\<lambda>c. c # new) s)
      else replace_nonempty old new s)"

section \<open>The monitor object\<close>

text \<open>
  Exceptions are values. \<open>KeyboardInterrupt\<close> and \<open>SystemExit\<close> are the two that are no
  subclass of \<^verbatim>\<open>Exception\<close>; \<open>ValueError\<close> is what \<^verbatim>\<open>monitor_speech\<close> raises itself;
  \<open>OtherError\<close> stands for every other subclass of \<^verbatim>\<open>Exception\<close>, with its message.
\<close>

datatype exn = KeyboardInterrupt | SystemExit | ValueError string | OtherError string

fun is_Exception :: "exn \<Rightarrow> bool" where
  "is_Exception KeyboardInterrupt = False"
| "is_Exception SystemExit = False"
| "is_Exception (ValueError m) = True"
| "is_Exception (OtherError m) = True"

fun str_of_exn :: "exn \<Rightarrow> string" where
  "str_of_exn KeyboardInterrupt = []"
| "str_of_exn SystemExit = []"
| "str_of_exn (ValueError m) = m"
| "str_of_exn (OtherError m) = m"

text \<open>
  A registered callback is a zero-argument callable with effects outside the monitor
  (the script's callbacks press and release keys). It is a function on the outside
  world \<open>'w\<close> that returns normally or raises, and in both cases leaves a world behind.
\<close>

type_synonym 'w action = "'w \<Rightarrow> (exn + unit) \<times> 'w"

text \<open>
  The fields of \<^verbatim>\<open>SpeechMonitor\<close>. \<open>FORBIDDEN_WORDS\<close> is a Python set; the list gives
  the order in which this run iterates over it, and nothing below depends on a
  particular order. The three resources are \<^verbatim>\<open>None\<close> (\<open>False\<close>) or an object.
\<close>

record 'w monitor =
  FORBIDDEN_WORDS :: "string list"
  detected_words :: "string set"
  WARNING_TEXT :: string
  RESET_TEXT :: string
  audio_list :: "string list"
  recognizer :: bool
  stream :: bool
  mic :: bool
  callbacks :: "string \<rightharpoonup> 'w action"

definition register_callback :: "'w monitor \<Rightarrow> string \<Rightarrow> 'w action \<Rightarrow> 'w monitor" where
  "register_callback self word callback = self\<lparr>callbacks := (callbacks self)(word \<mapsto> callback)\<rparr>"

definition execute_callbacks :: "'w monitor \<Rightarrow> string \<Rightarrow> 'w action" where
  "execute_callbacks self word w =
     (case callbacks self word of
        None \<Rightarrow> (Inr (), w)
      | Some callback \<Rightarrow> callback w)"

section \<open>Detection and dispatch\<close>

text \<open>
  The two conditions of the loop of \<^verbatim>\<open>_process_partial_result_and_full_result\<close>.
  Python reads \<^verbatim>\<open>mode == "full" not in self.detected_words\<close> as the chain
  \<^verbatim>\<open>mode == "full" and "full" not in self.detected_words\<close>.
\<close>

definition full_cond :: "'w monitor \<Rightarrow> string \<Rightarrow> string \<Rightarrow> string \<Rightarrow> bool" where
  "full_cond self current_line mode word =
     (str_in ('' '' @ word @ '' '') ('' '' @ current_line @ '' '') \<and> word \<noteq> []
      \<and> mode = ''full'' \<and> ''full'' \<notin> detected_words self)"

definition partial_cond :: "'w monitor \<Rightarrow> string \<Rightarrow> string \<Rightarrow> string \<Rightarrow> bool" where
  "partial_cond self current_line mode word =
     (str_in word current_line \<and> word \<noteq> []
      \<and> mode = ''partial'' \<and> ''partial'' \<notin> detected_words self)"

text \<open>
  One guarded block of the loop body: when the condition holds the word is added to
  \<open>new_detections\<close> and then its callback runs; an exception of the callback leaves
  the block (and the whole method, which has no handler).
\<close>

definition detect_and_fire ::
  "bool \<Rightarrow> 'w monitor \<Rightarrow> string \<Rightarrow> string set \<times> 'w \<Rightarrow> (exn + string set) \<times> 'w" where
  "detect_and_fire cond self word = (\<lambda>(new_detections, w).
     if cond
     then (case execute_callbacks self word w of
             (Inl e, w') \<Rightarrow> (Inl e, w')
           | (Inr u, w') \<Rightarrow> (Inr (insert word new_detections), w'))
     else (Inr new_detections, w))"

text \<open>The loop \<^verbatim>\<open>for word in self.FORBIDDEN_WORDS\<close>, over the words still to visit.\<close>

fun process_words ::
  "'w monitor \<Rightarrow> string \<Rightarrow> string \<Rightarrow> string list \<Rightarrow> string set \<times> 'w \<Rightarrow> (exn + string set) \<times> 'w" where
  "process_words self current_line mode [] (new_detections, w) = (Inr new_detections, w)"
| "process_words self current_line mode (word # rest) (new_detections, w) =
     (case detect_and_fire (full_cond self current_line mode word) self word (new_detections, w) of
        (Inl e, w1) \<Rightarrow> (Inl e, w1)
      | (Inr nd1, w1) \<Rightarrow>
          (case detect_and_fire (partial_cond self current_line mode word) self word (nd1, w1) of
             (Inl e, w2) \<Rightarrow> (Inl e, w2)
           | (Inr nd2, w2) \<Rightarrow> process_words self current_line mode rest (nd2, w2)))"

text \<open>
  \<^verbatim>\<open>_process_partial_result_and_full_result(text, mode)\<close>: the returned line or the
  exception, the monitor afterwards, and the world afterwards. \<open>detected_words\<close> is
  cleared first; it receives the new detections only when the loop has finished and
  they are not empty.
\<close>

definition process_partial_result_and_full_result ::
  "'w monitor \<Rightarrow> string \<Rightarrow> string \<Rightarrow> 'w \<Rightarrow> (exn + string) \<times> 'w monitor \<times> 'w" where
  "process_partial_result_and_full_result self text mode w =
     (let current_line = str_lower text;
          self1 = self\<lparr>detected_words := {}\<rparr>
      in case process_words self1 current_line mode (FORBIDDEN_WORDS self1) ({}, w) of
           (Inl e, w') \<Rightarrow> (Inl e, self1, w')
         | (Inr new_detections, w') \<Rightarrow>
             (Inr current_line,
              if new_detections \<noteq> {}
              then self1\<lparr>detected_words := detected_words self1 \<union> new_detections\<rparr>
              else self1,
              w'))"

section \<open>Annotation\<close>

text \<open>
  The inner loop of \<^verbatim>\<open>_info\<close> for one token \<open>word\<close>, over the trigger words still
  to visit: what \<^verbatim>\<open>words[i]\<close> holds when the loop is left. Both assignments are
  followed by \<^verbatim>\<open>break\<close>; a trigger that is contained but fits neither branch lets
  the loop go on.
\<close>

fun highlight :: "'w monitor \<Rightarrow> string \<Rightarrow> string \<Rightarrow> string list \<Rightarrow> string" where
  "highlight self mode word [] = word"
| "highlight self mode word (forbidden # rest) =
     (let lower_word = str_lower word
      in if str_in forbidden lower_word
         then (if lower_word = str_lower forbidden \<and> mode = ''full''
               then WARNING_TEXT self @ word @ RESET_TEXT self
               else if mode = ''partial''
               then str_replace word forbidden (WARNING_TEXT self @ forbidden @ RESET_TEXT self)
               else highlight self mode word rest)
         else highlight self mode word rest)"

text \<open>\<^verbatim>\<open>_info(current_sentence, mode)\<close>: the line that is printed.\<close>

definition info :: "'w monitor \<Rightarrow> string \<Rightarrow> string \<Rightarrow> string" where
  "info self current_sentence mode =
     str_join '' '' (map (\<lambda>word. highlight self mode word (FORBIDDEN_WORDS self))
                       (str_split current_sentence))"

section \<open>The monitor loop\<close>

text \<open>
  What lies outside the monitor object: the world the callbacks act on, the lines
  printed so far, how the next call of \<^verbatim>\<open>initialize_audio_stream\<close> will end, and
  counters of the calls made to the audio device (\<^verbatim>\<open>stream.read\<close>,
  \<^verbatim>\<open>stream.close\<close> after \<^verbatim>\<open>stream.stop_stream\<close>, \<^verbatim>\<open>mic.terminate\<close>).
\<close>

datatype init_outcome = InitOk | ModelFails exn | PyAudioFails exn | OpenFails exn

record 'w env =
  world :: 'w
  stdout :: "string list"
  init_behaviour :: init_outcome
  reads :: nat
  stream_closes :: nat
  mic_terminates :: nat

definition print :: "string \<Rightarrow> 'w env \<Rightarrow> 'w env" where
  "print line env = env\<lparr>stdout := stdout env @ [line]\<rparr>"

text \<open>
  \<^verbatim>\<open>initialize_audio_stream\<close>: the three fields are assigned in the order recognizer,
  mic, stream, so a failure leaves the earlier ones assigned. The handler prints and
  re-raises, and it handles \<^verbatim>\<open>Exception\<close> only.
\<close>

definition init_failed :: "exn \<Rightarrow> 'w env \<Rightarrow> 'w env" where
  "init_failed e env =
     (if is_Exception e then print (''Initialization failed: '' @ str_of_exn e) env else env)"

definition initialize_audio_stream ::
  "'w monitor \<Rightarrow> 'w env \<Rightarrow> (exn + unit) \<times> 'w monitor \<times> 'w env" where
  "initialize_audio_stream self env =
     (case init_behaviour env of
        InitOk \<Rightarrow> (Inr (), self\<lparr>recognizer := True, mic := True, stream := True\<rparr>, env)
      | ModelFails e \<Rightarrow> (Inl e, self, init_failed e env)
      | PyAudioFails e \<Rightarrow> (Inl e, self\<lparr>recognizer := True\<rparr>, init_failed e env)
      | OpenFails e \<Rightarrow> (Inl e, self\<lparr>recognizer := True, mic := True\<rparr>, init_failed e env))"

definition cleanup :: "'w monitor \<Rightarrow> 'w env \<Rightarrow> 'w env" where
  "cleanup self env =
     (let env1 = (if stream self then env\<lparr>stream_closes := Suc (stream_closes env)\<rparr> else env)
      in if mic self then env1\<lparr>mic_terminates := Suc (mic_terminates env1)\<rparr> else env1)"

definition output_audio :: "'w monitor \<Rightarrow> string list" where
  "output_audio self = audio_list self"

text \<open>
  What one pass of the \<^verbatim>\<open>while True\<close> loop meets: the read (or the recognizer)
  raises, among them the user's interrupt; \<^verbatim>\<open>AcceptWaveform\<close> returns false; or it
  returns true and the decoded result has a \<^verbatim>\<open>"text"\<close> entry or has none.
\<close>

datatype chunk = Raises exn | NoResult | Result "string option"

text \<open>A chunk that carries a finalized recognition result, with or without text.\<close>

fun is_final :: "chunk \<Rightarrow> bool" where
  "is_final (Result r) = True"
| "is_final (Raises e) = False"
| "is_final NoResult = False"

text \<open>A chunk at which the read or the recognizer raises.\<close>

fun raises :: "chunk \<Rightarrow> bool" where
  "raises (Raises e) = True"
| "raises NoResult = False"
| "raises (Result r) = False"

text \<open>
  The two tests \<^verbatim>\<open>mode in ("full")\<close> and \<^verbatim>\<open>mode in ("partial")\<close>: the parentheses
  make no tuple, so both are substring tests on strings.
\<close>

definition route ::
  "string \<Rightarrow> string \<Rightarrow> string \<times> 'w monitor \<times> 'w \<Rightarrow> (exn + string) \<times> 'w monitor \<times> 'w" where
  "route mode text = (\<lambda>(current_line, self, w).
     case (if str_in mode ''full''
           then process_partial_result_and_full_result self text mode w
           else (Inr current_line, self, w)) of
       (Inl e, self1, w1) \<Rightarrow> (Inl e, self1, w1)
     | (Inr line1, self1, w1) \<Rightarrow>
         (if str_in mode ''partial''
          then process_partial_result_and_full_result self1 text mode w1
          else (Inr line1, self1, w1)))"

text \<open>One pass of the loop body.\<close>

definition iteration ::
  "string \<Rightarrow> chunk \<Rightarrow> string \<times> 'w monitor \<times> 'w env \<Rightarrow> (exn + string) \<times> 'w monitor \<times> 'w env" where
  "iteration mode ch = (\<lambda>(current_line, self, env).
     let env1 = env\<lparr>reads := Suc (reads env)\<rparr>
     in case ch of
          Raises e \<Rightarrow> (Inl e, self, env1)
        | NoResult \<Rightarrow> (Inr current_line, self, env1)
        | Result r \<Rightarrow>
            (case (case r of
                     None \<Rightarrow> (Inr current_line, self, world env1)
                   | Some text \<Rightarrow> route mode text (current_line, self, world env1)) of
               (Inl e, self2, w2) \<Rightarrow> (Inl e, self2, env1\<lparr>world := w2\<rparr>)
             | (Inr line, self2, w2) \<Rightarrow>
                 (let self3 = self2\<lparr>audio_list := audio_list self2 @ [line]\<rparr>
                  in (Inr line, self3, print (info self3 line mode) (env1\<lparr>world := w2\<rparr>)))))"

text \<open>
  The loop never returns by itself: it ends with an exception, or it is still running
  when the chunks given to it are used up (\<open>None\<close>).
\<close>

fun loop ::
  "string \<Rightarrow> chunk list \<Rightarrow> string \<times> 'w monitor \<times> 'w env \<Rightarrow> exn option \<times> 'w monitor \<times> 'w env" where
  "loop mode [] (current_line, self, env) = (None, self, env)"
| "loop mode (ch # chs) (current_line, self, env) =
     (case iteration mode ch (current_line, self, env) of
        (Inl e, self1, env1) \<Rightarrow> (Some e, self1, env1)
      | (Inr line, self1, env1) \<Rightarrow> loop mode chs (line, self1, env1))"

definition invalid_mode :: "string \<Rightarrow> exn" where
  "invalid_mode mode =
     ValueError (''Invalid mode: '' @ mode @ ''. Use '' @ [CHR 0x27] @ ''full'' @ [CHR 0x27]
                 @ '', '' @ [CHR 0x27] @ ''partial'' @ [CHR 0x27])"

text \<open>
  \<^verbatim>\<open>monitor_speech(mode)\<close> on the chunks the device and the recognizer deliver:
  \<open>Some (Inr ())\<close> when it returns, \<open>Some (Inl e)\<close> when it raises \<open>e\<close>, \<open>None\<close> when
  it is still listening after the last chunk. Initialization and the mode check come
  before the \<^verbatim>\<open>try\<close>; the handlers and \<^verbatim>\<open>finally: self.cleanup()\<close> belong to the loop.
\<close>

definition monitor_speech ::
  "'w monitor \<Rightarrow> string \<Rightarrow> chunk list \<Rightarrow> 'w env \<Rightarrow> (exn + unit) option \<times> 'w monitor \<times> 'w env" where
  "monitor_speech self mode chunks env =
     (case (if \<not> (recognizer self \<and> stream self \<and> mic self)
            then initialize_audio_stream self env
            else (Inr (), self, env)) of
        (Inl e, self1, env1) \<Rightarrow> (Some (Inl e), self1, env1)
      | (Inr u, self1, env1) \<Rightarrow>
          if mode \<notin> {''full'', ''partial''}
          then (Some (Inl (invalid_mode mode)), self1, env1)
          else
            (case loop mode chunks
                    ([], self1,
                     print ''Listening for forbidden words -> mode... (Press Ctrl+C to stop)'' env1) of
               (None, self2, env2) \<Rightarrow> (None, self2, env2)
             | (Some e, self2, env2) \<Rightarrow>
                 if e = KeyboardInterrupt
                 then (Some (Inr ()), self2, cleanup self2 (print (CHR 0x0A # ''Stopping...'') env2))
                 else if is_Exception e
                 then (Some (Inr ()), self2,
                       cleanup self2 (print (''Error during processing: '' @ str_of_exn e) env2))
                 else (Some (Inl e), self2, cleanup self2 env2)))"

section \<open>Construction and sample monitors\<close>

text \<open>
  \<^verbatim>\<open>__init__\<close>: the vocabulary is copied, nothing is detected, the history is empty,
  no resource is held and no callback is registered. (The model path, the sample rate
  and the buffer size only reach the audio library.)
\<close>

definition new_monitor :: "string list \<Rightarrow> string \<Rightarrow> string \<Rightarrow> 'w monitor" where
  "new_monitor forbidden_words warning_text reset_text =
     \<lparr>FORBIDDEN_WORDS = forbidden_words, detected_words = {},
      WARNING_TEXT = warning_text, RESET_TEXT = reset_text, audio_list = [],
      recognizer = False, stream = False, mic = False, callbacks = Map.empty\<rparr>"

text \<open>The default markers \<^verbatim>\<open>'\033[1;31m'\<close> and \<^verbatim>\<open>'\033[0m'\<close>.\<close>

definition warning_default :: string where
  "warning_default = CHR 0x1B # ''[1;31m''"

definition reset_default :: string where
  "reset_default = CHR 0x1B # ''[0m''"

text \<open>
  For concrete runs the world is the list of keys the callbacks have tapped so far.
  \<open>tap k\<close> is a callback like those of the script; \<open>jam k\<close> raises before any key
  event is sent.
\<close>

definition tap :: "string \<Rightarrow> string list action" where
  "tap k w = (Inr (), w @ [k])"

definition jam :: "string \<Rightarrow> string list action" where
  "jam k w = (Inl (OtherError (''cannot press '' @ k)), w)"

definition fresh_env :: "'w \<Rightarrow> 'w env" where
  "fresh_env w =
     \<lparr>world = w, stdout = [], init_behaviour = InitOk, reads = 0,
      stream_closes = 0, mic_terminates = 0\<rparr>"

text \<open>A monitor for the single trigger \<^verbatim>\<open>"right"\<close>, bound to the key \<^verbatim>\<open>d\<close> as in the script.\<close>

definition rightful_monitor :: "string list monitor" where
  "rightful_monitor =
     register_callback (new_monitor [''right''] warning_default reset_default)
       ''right'' (tap ''d'')"

text \<open>
  A monitor for \<^verbatim>\<open>"attack"\<close> and \<^verbatim>\<open>"drink"\<close>, iterated in the given order, where the
  callback of \<^verbatim>\<open>"attack"\<close> fails and the one of \<^verbatim>\<open>"drink"\<close> taps \<^verbatim>\<open>r\<close>.
\<close>

definition attack_drink_monitor :: "string list \<Rightarrow> string list monitor" where
  "attack_drink_monitor order =
     register_callback
       (register_callback (new_monitor order warning_default reset_default)
          ''attack'' (jam ''p''))
       ''drink'' (tap ''r'')"

text \<open>
  A monitor whose vocabulary contains the empty string next to \<^verbatim>\<open>"right"\<close>, with a
  callback registered for each of the two.
\<close>

definition blank_monitor :: "string list monitor" where
  "blank_monitor =
     register_callback
       (register_callback (new_monitor ['''', ''right''] warning_default reset_default)
          '''' (tap ''x''))
       ''right'' (tap ''d'')"

text \<open>The vocabulary \<^verbatim>\<open>{"left", "right"}\<close> with the default markers and no callbacks.\<close>

definition left_right_monitor :: "string list monitor" where
  "left_right_monitor = new_monitor [''left'', ''right''] warning_default reset_default"

section \<open>Detection rule and dispatch, stated separately\<close>

text \<open>
  The rule a trigger word has to satisfy in a lowercased line: never the empty word;
  in mode \<^verbatim>\<open>"full"\<close> the padded line contains the padded word, in mode
  \<^verbatim>\<open>"partial"\<close> the line contains the word.
\<close>

definition matches :: "string \<Rightarrow> string \<Rightarrow> string \<Rightarrow> bool" where
  "matches mode current_line word =
     (word \<noteq> [] \<and>
      ((mode = ''full'' \<and> str_in ('' '' @ word @ '' '') ('' '' @ current_line @ '' ''))
       \<or> (mode = ''partial'' \<and> str_in word current_line)))"

text \<open>Running the callbacks of a list of words one after the other, up to the first that raises.\<close>

fun fire_all :: "'w monitor \<Rightarrow> string list \<Rightarrow> 'w action" where
  "fire_all self [] w = (Inr (), w)"
| "fire_all self (word # rest) w =
     (case execute_callbacks self word w of
        (Inl e, w') \<Rightarrow> (Inl e, w')
      | (Inr u, w') \<Rightarrow> fire_all self rest w')"

section \<open>The processing loop is detection followed by dispatch\<close>

lemma full_cond_cleared:
  "detected_words self = {} \<Longrightarrow>
   full_cond self current_line mode word =
     (mode = ''full'' \<and> matches mode current_line word)"
  by (auto simp: full_cond_def matches_def)

lemma partial_cond_cleared:
  "detected_words self = {} \<Longrightarrow>
   partial_cond self current_line mode word =
     (mode = ''partial'' \<and> matches mode current_line word)"
  by (auto simp: partial_cond_def matches_def)

lemma process_words_skip:
  assumes "detected_words self = {}" and "\<not> matches mode current_line word"
  shows "process_words self current_line mode (word # rest) (nd, w) =
         process_words self current_line mode rest (nd, w)"
  using assms by (simp add: detect_and_fire_def full_cond_cleared partial_cond_cleared)

lemma process_words_hit_raise:
  assumes "detected_words self = {}" and "matches mode current_line word"
      and "execute_callbacks self word w = (Inl e, w1)"
  shows "process_words self current_line mode (word # rest) (nd, w) = (Inl e, w1)"
proof -
  from assms(2) have "mode = ''full'' \<or> mode = ''partial''"
    by (auto simp: matches_def)
  then show ?thesis
  proof
    assume "mode = ''full''"
    with assms show ?thesis
      by (simp add: detect_and_fire_def full_cond_cleared partial_cond_cleared)
  next
    assume "mode = ''partial''"
    with assms show ?thesis
      by (simp add: detect_and_fire_def full_cond_cleared partial_cond_cleared)
  qed
qed

lemma process_words_hit_return:
  assumes "detected_words self = {}" and "matches mode current_line word"
      and "execute_callbacks self word w = (Inr u, w1)"
  shows "process_words self current_line mode (word # rest) (nd, w) =
         process_words self current_line mode rest (insert word nd, w1)"
proof -
  from assms(2) have "mode = ''full'' \<or> mode = ''partial''"
    by (auto simp: matches_def)
  then show ?thesis
  proof
    assume "mode = ''full''"
    with assms show ?thesis
      by (simp add: detect_and_fire_def full_cond_cleared partial_cond_cleared)
  next
    assume "mode = ''partial''"
    with assms show ?thesis
      by (simp add: detect_and_fire_def full_cond_cleared partial_cond_cleared)
  qed
qed


lemma process_words_eq:
  assumes "detected_words self = {}"
  shows "process_words self current_line mode ws (nd, w) =
     (case fire_all self (filter (matches mode current_line) ws) w of
        (Inl e, w') \<Rightarrow> (Inl e, w')
      | (Inr u, w') \<Rightarrow> (Inr (nd \<union> set (filter (matches mode current_line) ws)), w'))"
proof (induction ws arbitrary: nd w)
  case Nil
  show ?case by simp
next
  case (Cons word rest)
  show ?case
  proof (cases "matches mode current_line word")
    case False
    then have same: "filter (matches mode current_line) (word # rest) =
        filter (matches mode current_line) rest"
      by simp
    from False assms show ?thesis
      unfolding same by (simp add: process_words_skip Cons.IH del: process_words.simps)
  next
    case True
    obtain r w1 where ex: "execute_callbacks self word w = (r, w1)"
      by (cases "execute_callbacks self word w")
    show ?thesis
    proof (cases r)
      case (Inl e)
      with True ex assms show ?thesis
        by (simp add: process_words_hit_raise del: process_words.simps)
    next
      case (Inr u)
      obtain r2 w2 where rest: "fire_all self (filter (matches mode current_line) rest) w1 = (r2, w2)"
        by (cases "fire_all self (filter (matches mode current_line) rest) w1")
      from Inr True ex assms have
        "process_words self current_line mode (word # rest) (nd, w) =
         process_words self current_line mode rest (insert word nd, w1)"
        by (simp add: process_words_hit_return del: process_words.simps)
      also have "\<dots> = (case r2 of Inl e \<Rightarrow> (Inl e, w2)
           | Inr u \<Rightarrow> (Inr (insert word nd \<union> set (filter (matches mode current_line) rest)), w2))"
        by (simp add: Cons.IH rest)
      finally show ?thesis
        using True ex Inr rest by (cases r2) simp_all
    qed
  qed
qed

lemma execute_callbacks_detected [simp]:
  "execute_callbacks (self\<lparr>detected_words := X\<rparr>) = execute_callbacks self"
  by (rule ext)+ (simp add: execute_callbacks_def)

lemma fire_all_detected [simp]:
  "fire_all (self\<lparr>detected_words := X\<rparr>) ws w = fire_all self ws w"
proof (induction ws arbitrary: w)
  case Nil
  show ?case by simp
next
  case (Cons word rest)
  obtain r w1 where ex: "execute_callbacks self word w = (r, w1)"
    by (cases "execute_callbacks self word w")
  then show ?case
    by (cases r) (simp_all add: Cons.IH)
qed

lemma process_eq:
  "process_partial_result_and_full_result self text mode w =
     (case fire_all self (filter (matches mode (str_lower text)) (FORBIDDEN_WORDS self)) w of
        (Inl e, w') \<Rightarrow> (Inl e, self\<lparr>detected_words := {}\<rparr>, w')
      | (Inr u, w') \<Rightarrow>
          (Inr (str_lower text),
           self\<lparr>detected_words := set (filter (matches mode (str_lower text)) (FORBIDDEN_WORDS self))\<rparr>,
           w'))"
proof -
  obtain r w' where f: "fire_all self (filter (matches mode (str_lower text)) (FORBIDDEN_WORDS self)) w = (r, w')"
    by (cases "fire_all self (filter (matches mode (str_lower text)) (FORBIDDEN_WORDS self)) w")
  show ?thesis
    by (cases r) (simp_all add: process_partial_result_and_full_result_def Let_def process_words_eq f)
qed

lemma process_returns:
  assumes "process_partial_result_and_full_result self text mode w = (Inr line, self', w')"
  shows "line = str_lower text"
    and "self' = self\<lparr>detected_words :=
                        set (filter (matches mode (str_lower text)) (FORBIDDEN_WORDS self))\<rparr>"
    and "fire_all self (filter (matches mode (str_lower text)) (FORBIDDEN_WORDS self)) w
           = (Inr (), w')"
proof -
  obtain r v where f: "fire_all self (filter (matches mode (str_lower text)) (FORBIDDEN_WORDS self)) w = (r, v)"
    by (cases "fire_all self (filter (matches mode (str_lower text)) (FORBIDDEN_WORDS self)) w")
  from assms f have r: "r = Inr ()"
    by (cases r) (simp_all add: process_eq)
  from assms f r show "line = str_lower text"
    by (auto simp: process_eq)
  from assms f r show "self' = self\<lparr>detected_words :=
                        set (filter (matches mode (str_lower text)) (FORBIDDEN_WORDS self))\<rparr>"
    by (auto simp: process_eq)
  from assms f r show "fire_all self (filter (matches mode (str_lower text)) (FORBIDDEN_WORDS self)) w
           = (Inr (), w')"
    by (auto simp: process_eq)
qed

lemma rightful_monitor_fields:
  "FORBIDDEN_WORDS rightful_monitor = [''right'']"
  "detected_words rightful_monitor = {}"
  "callbacks rightful_monitor = [''right'' \<mapsto> tap ''d'']"
  by (simp_all add: rightful_monitor_def new_monitor_def register_callback_def)

section \<open>Detection\<close>

text \<open>
  C1. When \<^verbatim>\<open>_process_partial_result_and_full_result\<close> returns, for every non-empty
  trigger word of the vocabulary: in mode \<^verbatim>\<open>"full"\<close> the word is in the detected set
  if and only if the space-padded lowercased text contains the space-padded word, and
  in mode \<^verbatim>\<open>"partial"\<close> if and only if the word occurs anywhere in the lowercased
  text. The detected set holds vocabulary words only, so the text \<^verbatim>\<open>"rightful"\<close> with
  the vocabulary \<^verbatim>\<open>{"right"}\<close> gives the empty set in the first mode and
  \<^verbatim>\<open>{"right"}\<close> in the second.
\<close>

theorem detection_rule:
  assumes "process_partial_result_and_full_result self text mode w = (Inr line, self', w')"
  shows "(\<forall>word \<in> set (FORBIDDEN_WORDS self). word \<noteq> [] \<longrightarrow>
            (mode = ''full'' \<longrightarrow>
               (word \<in> detected_words self' \<longleftrightarrow>
                str_in ('' '' @ word @ '' '') ('' '' @ str_lower text @ '' '')))
          \<and> (mode = ''partial'' \<longrightarrow>
               (word \<in> detected_words self' \<longleftrightarrow> str_in word (str_lower text))))
         \<and> detected_words self' \<subseteq> set (FORBIDDEN_WORDS self)"
  using process_returns(2) [OF assms] by (auto simp: matches_def)

text \<open>The rule at the text \<^verbatim>\<open>"rightful"\<close> and the vocabulary \<^verbatim>\<open>{"right"}\<close>, in both modes.\<close>

theorem detection_rule_rightful:
  "detected_words (fst (snd (process_partial_result_and_full_result
      rightful_monitor ''rightful'' ''full'' []))) = {}
   \<and> detected_words (fst (snd (process_partial_result_and_full_result
      rightful_monitor ''rightful'' ''partial'' []))) = {''right''}"
proof -
  have low: "str_lower ''rightful'' = ''rightful''"
    by (simp add: str_lower_def lower_char_def)
  have no: "\<not> str_in '' right '' '' rightful ''"
    by (simp add: str_in_def sublist_code)
  have yes: "str_in ''right'' ''rightful''"
    by (simp add: str_in_def sublist_code)
  have whole: "process_partial_result_and_full_result rightful_monitor ''rightful'' ''full'' []
      = (Inr ''rightful'', rightful_monitor\<lparr>detected_words := {}\<rparr>, [])"
    by (simp add: process_partial_result_and_full_result_def rightful_monitor_fields
          detect_and_fire_def full_cond_def partial_cond_def low no)
  have part: "process_partial_result_and_full_result rightful_monitor ''rightful'' ''partial'' []
      = (Inr ''rightful'', rightful_monitor\<lparr>detected_words := {''right''}\<rparr>, [''d''])"
    by (simp add: process_partial_result_and_full_result_def rightful_monitor_fields
          detect_and_fire_def full_cond_def partial_cond_def low yes
          execute_callbacks_def tap_def)
  have a: "''right'' \<notin> detected_words (rightful_monitor\<lparr>detected_words := {}\<rparr>)"
    using detection_rule [OF whole] by simp
  have b: "''right'' \<in> detected_words (rightful_monitor\<lparr>detected_words := {''right''}\<rparr>)
      \<and> detected_words (rightful_monitor\<lparr>detected_words := {''right''}\<rparr>) \<subseteq> {''right''}"
    using detection_rule [OF part] by (simp add: rightful_monitor_fields low yes)
  from a b show ?thesis
    by (simp add: whole part)
qed

lemma attack_drink_monitor_fields:
  "FORBIDDEN_WORDS (attack_drink_monitor order) = order"
  "detected_words (attack_drink_monitor order) = {}"
  "callbacks (attack_drink_monitor order) = [''attack'' \<mapsto> jam ''p'', ''drink'' \<mapsto> tap ''r'']"
  by (simp_all add: attack_drink_monitor_def new_monitor_def register_callback_def)

lemma fire_all_append:
  "fire_all self (xs @ ys) w =
     (case fire_all self xs w of
        (Inl e, w') \<Rightarrow> (Inl e, w')
      | (Inr u, w') \<Rightarrow> fire_all self ys w')"
proof (induction xs arbitrary: w)
  case Nil
  show ?case by simp
next
  case (Cons x xs)
  obtain r w1 where ex: "execute_callbacks self x w = (r, w1)"
    by (cases "execute_callbacks self x w")
  then show ?case
    by (cases r) (simp_all add: Cons.IH)
qed

section \<open>Dispatch\<close>

text \<open>
  C2, as the code has it. The call of a callback has no handler. When the vocabulary
  is iterated as \<open>before\<close>, then \<open>word\<close>, then \<open>rest\<close>, the callbacks of the detected
  words of \<open>before\<close> return and the callback of the detected \<open>word\<close> raises \<open>e\<close>, then
  the method raises \<open>e\<close> with the world as that callback left it: no callback of \<open>rest\<close>
  is invoked, and \<open>detected_words\<close> stays empty.
\<close>

theorem callback_error_propagates:
  assumes "FORBIDDEN_WORDS self = before @ word # rest"
      and "fire_all self (filter (matches mode (str_lower text)) before) w = (Inr (), w1)"
      and "matches mode (str_lower text) word"
      and "execute_callbacks self word w1 = (Inl e, w2)"
  shows "process_partial_result_and_full_result self text mode w
           = (Inl e, self\<lparr>detected_words := {}\<rparr>, w2)"
proof -
  have "fire_all self (filter (matches mode (str_lower text)) (FORBIDDEN_WORDS self)) w
          = (Inl e, w2)"
    using assms by (simp add: fire_all_append)
  then show ?thesis
    by (simp add: process_eq)
qed

text \<open>
  C2 as stated fails: with \<^verbatim>\<open>"attack"\<close> iterated before \<^verbatim>\<open>"drink"\<close>, both in the
  text, the failing callback of \<^verbatim>\<open>"attack"\<close> ends the method and the key of
  \<^verbatim>\<open>"drink"\<close> is never tapped.
\<close>

theorem callback_error_skips_drink:
  "process_partial_result_and_full_result
     (attack_drink_monitor [''attack'', ''drink'']) ''attack drink'' ''full'' []
     = (Inl (OtherError ''cannot press p''),
        (attack_drink_monitor [''attack'', ''drink''])\<lparr>detected_words := {}\<rparr>, [])"
proof -
  have low: "str_lower ''attack drink'' = ''attack drink''"
    by (simp add: str_lower_def lower_char_def)
  have hit: "str_in '' attack '' '' attack drink ''"
    by (simp add: str_in_def sublist_code)
  show ?thesis
    by (simp add: process_partial_result_and_full_result_def attack_drink_monitor_fields
          detect_and_fire_def full_cond_def partial_cond_def low hit
          execute_callbacks_def jam_def)
qed

text \<open>
  With the other iteration order the key of \<^verbatim>\<open>"drink"\<close> is tapped first and the
  error of \<^verbatim>\<open>"attack"\<close> then ends the method.
\<close>

theorem callback_error_propagates_attack:
  "process_partial_result_and_full_result
     (attack_drink_monitor [''drink'', ''attack'']) ''attack drink'' ''full'' []
     = (Inl (OtherError ''cannot press p''),
        (attack_drink_monitor [''drink'', ''attack''])\<lparr>detected_words := {}\<rparr>, [''r''])"
proof -
  have low: "str_lower ''attack drink'' = ''attack drink''"
    by (simp add: str_lower_def lower_char_def)
  have hit: "matches ''full'' ''attack drink'' ''attack''"
    by (simp add: matches_def str_in_def sublist_code)
  have hit': "matches ''full'' ''attack drink'' ''drink''"
    by (simp add: matches_def str_in_def sublist_code)
  have voc: "FORBIDDEN_WORDS (attack_drink_monitor [''drink'', ''attack''])
      = [''drink''] @ ''attack'' # []"
    by (simp add: attack_drink_monitor_fields)
  have pre: "fire_all (attack_drink_monitor [''drink'', ''attack''])
      (filter (matches ''full'' (str_lower ''attack drink'')) [''drink'']) [] = (Inr (), [''r''])"
    by (simp add: low hit' execute_callbacks_def attack_drink_monitor_fields tap_def)
  have fail: "execute_callbacks (attack_drink_monitor [''drink'', ''attack'']) ''attack'' [''r'']
      = (Inl (OtherError ''cannot press p''), [''r''])"
    by (simp add: execute_callbacks_def attack_drink_monitor_fields jam_def)
  from callback_error_propagates [OF voc pre _ fail] hit low show ?thesis
    by simp
qed

section \<open>Matching and its effects\<close>

text \<open>
  C3, as the code has it. Whatever the outcome, processing one utterance changes no
  field of the monitor other than \<open>detected_words\<close>. When it returns, the returned
  line is the lowercased text and the detected set is given by the text, the mode and
  the vocabulary alone: the non-empty vocabulary words that satisfy the rule of the
  mode. Matching is not free of effects, though: the callbacks of exactly these words
  are invoked inside the matching loop, in iteration order, and the world is what they
  leave behind.
\<close>

theorem processing_frame:
  assumes "process_partial_result_and_full_result self text mode w = (r, self', w')"
  shows "self' = self\<lparr>detected_words := detected_words self'\<rparr>
     \<and> (\<forall>line. r = Inr line \<longrightarrow>
            line = str_lower text
          \<and> detected_words self'
              = {word \<in> set (FORBIDDEN_WORDS self). matches mode (str_lower text) word})
     \<and> fire_all self (filter (matches mode (str_lower text)) (FORBIDDEN_WORDS self)) w
         = (case r of Inl e \<Rightarrow> Inl e | Inr line \<Rightarrow> Inr (), w')"
proof -
  obtain q v where f:
    "fire_all self (filter (matches mode (str_lower text)) (FORBIDDEN_WORDS self)) w = (q, v)"
    by (cases "fire_all self (filter (matches mode (str_lower text)) (FORBIDDEN_WORDS self)) w")
  show ?thesis
  proof (cases q)
    case (Inl e)
    with assms f show ?thesis
      by (auto simp: process_eq)
  next
    case (Inr u)
    with assms f show ?thesis
      by (auto simp: process_eq)
  qed
qed

text \<open>
  C3 as stated fails: matching the text \<^verbatim>\<open>"turn right"\<close> taps the key bound to
  \<^verbatim>\<open>"right"\<close>.
\<close>

theorem matching_fires_callback:
  "process_partial_result_and_full_result rightful_monitor ''turn right'' ''full'' []
     = (Inr ''turn right'', rightful_monitor\<lparr>detected_words := {''right''}\<rparr>, [''d''])"
proof -
  have low: "str_lower ''turn right'' = ''turn right''"
    by (simp add: str_lower_def lower_char_def)
  have hit: "str_in '' right '' '' turn right ''"
    by (simp add: str_in_def sublist_code)
  show ?thesis
    by (simp add: process_partial_result_and_full_result_def rightful_monitor_fields
          detect_and_fire_def full_cond_def partial_cond_def low hit
          execute_callbacks_def tap_def)
qed

text \<open>The frame property at the text \<^verbatim>\<open>"Turn RIGHT"\<close> in mode \<^verbatim>\<open>"partial"\<close>.\<close>

theorem processing_frame_turn_right:
  "process_partial_result_and_full_result rightful_monitor ''Turn RIGHT'' ''partial'' []
     = (Inr ''turn right'', rightful_monitor\<lparr>detected_words := {''right''}\<rparr>, [''d''])
   \<and> fire_all rightful_monitor [''right''] [] = (Inr (), [''d''])"
proof -
  have low: "str_lower ''Turn RIGHT'' = ''turn right''"
    by code_simp
  have hit: "str_in ''right'' ''turn right''"
    by (simp add: str_in_def sublist_code)
  have run: "process_partial_result_and_full_result rightful_monitor ''Turn RIGHT'' ''partial'' []
     = (Inr ''turn right'', rightful_monitor\<lparr>detected_words := {''right''}\<rparr>, [''d''])"
    by (simp add: process_partial_result_and_full_result_def rightful_monitor_fields
          detect_and_fire_def full_cond_def partial_cond_def low hit
          execute_callbacks_def tap_def)
  from processing_frame [OF run] show ?thesis
    by (simp add: run rightful_monitor_fields low matches_def hit)
qed

lemma filter_member_filter:
  "filter (\<lambda>x. x \<in> set (filter P xs)) xs = filter P xs"
  by (rule filter_cong) auto

section \<open>Consecutive utterances\<close>

text \<open>
  C4. Let an utterance be processed and return, and let the same text be processed
  again right after it, in the monitor and the world the first run left, and return.
  Then the same outcome would have been reached from any earlier content of
  \<open>detected_words\<close>; the second run detects the same set and returns the same line;
  and the callbacks of the detected words, in iteration order, have been fired by the
  first run and are fired again by the second.
\<close>

theorem detection_repeats:
  assumes "process_partial_result_and_full_result self text mode w = (Inr line1, self1, w1)"
      and "process_partial_result_and_full_result self1 text mode w1 = (Inr line2, self2, w2)"
  shows "(\<forall>X. process_partial_result_and_full_result (self\<lparr>detected_words := X\<rparr>) text mode w
              = (Inr line1, self1, w1))
     \<and> detected_words self2 = detected_words self1 \<and> line2 = line1
     \<and> fire_all self (filter (\<lambda>word. word \<in> detected_words self1) (FORBIDDEN_WORDS self)) w
         = (Inr (), w1)
     \<and> fire_all self (filter (\<lambda>word. word \<in> detected_words self1) (FORBIDDEN_WORDS self)) w1
         = (Inr (), w2)"
proof -
  let ?D = "filter (matches mode (str_lower text)) (FORBIDDEN_WORDS self)"
  note first = process_returns [OF assms(1)]
  have voc: "FORBIDDEN_WORDS self1 = FORBIDDEN_WORDS self"
    by (simp add: first(2))
  note second = process_returns [OF assms(2), unfolded voc]
  have D: "filter (\<lambda>word. word \<in> detected_words self1) (FORBIDDEN_WORDS self) = ?D"
    unfolding first(2) by (simp add: filter_member_filter del: set_filter)
  have any: "process_partial_result_and_full_result (self\<lparr>detected_words := X\<rparr>) text mode w
      = (Inr line1, self1, w1)" for X
    using first by (simp add: process_eq)
  have again: "fire_all self ?D w1 = (Inr (), w2)"
    using second(3) by (simp add: first(2))
  have same: "detected_words self2 = detected_words self1"
    by (simp add: second(2) first(2))
  from any same first(1) second(1) first(3) again show ?thesis
    by (simp add: D)
qed

text \<open>The utterance \<^verbatim>\<open>"right"\<close> twice in a row: the key \<^verbatim>\<open>d\<close> is tapped twice.\<close>

theorem detection_repeats_right:
  "process_partial_result_and_full_result rightful_monitor ''right'' ''full'' []
     = (Inr ''right'', rightful_monitor\<lparr>detected_words := {''right''}\<rparr>, [''d''])
   \<and> process_partial_result_and_full_result
       (rightful_monitor\<lparr>detected_words := {''right''}\<rparr>) ''right'' ''full'' [''d'']
     = (Inr ''right'', rightful_monitor\<lparr>detected_words := {''right''}\<rparr>, [''d'', ''d''])
   \<and> fire_all rightful_monitor [''right''] [''d''] = (Inr (), [''d'', ''d''])"
proof -
  have low: "str_lower ''right'' = ''right''"
    by (simp add: str_lower_def lower_char_def)
  have hit: "str_in '' right '' '' right ''"
    by (simp add: str_in_def)
  have one: "process_partial_result_and_full_result rightful_monitor ''right'' ''full'' []
     = (Inr ''right'', rightful_monitor\<lparr>detected_words := {''right''}\<rparr>, [''d''])"
    by (simp add: process_partial_result_and_full_result_def Let_def rightful_monitor_fields
          detect_and_fire_def full_cond_def partial_cond_def low hit
          execute_callbacks_def tap_def)
  have two: "process_partial_result_and_full_result
       (rightful_monitor\<lparr>detected_words := {''right''}\<rparr>) ''right'' ''full'' [''d'']
     = (Inr ''right'', rightful_monitor\<lparr>detected_words := {''right''}\<rparr>, [''d'', ''d''])"
    by (simp add: process_partial_result_and_full_result_def Let_def rightful_monitor_fields
          detect_and_fire_def full_cond_def partial_cond_def low hit
          execute_callbacks_def tap_def)
  from detection_repeats [OF one two] show ?thesis
    by (simp add: one two rightful_monitor_fields)
qed

lemma blank_monitor_fields:
  "FORBIDDEN_WORDS blank_monitor = ['''', ''right'']"
  "detected_words blank_monitor = {}"
  "callbacks blank_monitor = ['''' \<mapsto> tap ''x'', ''right'' \<mapsto> tap ''d'']"
  "audio_list blank_monitor = []"
  by (simp_all add: blank_monitor_def new_monitor_def register_callback_def)

lemma matches_nonempty: "matches mode current_line word \<Longrightarrow> word \<noteq> []"
  by (simp add: matches_def)

lemma matches_empty_line: "\<not> matches mode [] word"
proof
  assume m: "matches mode [] word"
  then have ne: "word \<noteq> []"
    by (simp add: matches_def)
  from m have "sublist ('' '' @ word @ '' '') ('' '' @ '' '') \<or> sublist word []"
    by (auto simp: matches_def str_in_def)
  then show False
  proof
    assume "sublist ('' '' @ word @ '' '') ('' '' @ '' '')"
    then have "length ('' '' @ word @ '' '') \<le> length ('' '' @ '' '')"
      by (rule sublist_length_le)
    with ne show False
      by (cases word) simp_all
  next
    assume "sublist word []"
    with ne show False by simp
  qed
qed

lemma execute_callbacks_vocabulary [simp]:
  "execute_callbacks (self\<lparr>FORBIDDEN_WORDS := V\<rparr>) = execute_callbacks self"
  by (rule ext)+ (simp add: execute_callbacks_def)

lemma fire_all_vocabulary [simp]:
  "fire_all (self\<lparr>FORBIDDEN_WORDS := V\<rparr>) ws w = fire_all self ws w"
proof (induction ws arbitrary: w)
  case Nil
  show ?case by simp
next
  case (Cons word rest)
  obtain r w1 where ex: "execute_callbacks self word w = (r, w1)"
    by (cases "execute_callbacks self word w")
  then show ?case
    by (cases r) (simp_all add: Cons.IH)
qed

lemma filter_matches_drop_empty:
  "filter (matches mode line) (filter (\<lambda>word. word \<noteq> []) V) = filter (matches mode line) V"
  by (induction V) (auto dest: matches_nonempty)

lemma process_empty_text:
  "process_partial_result_and_full_result self [] mode w
     = (Inr [], self\<lparr>detected_words := {}\<rparr>, w)"
  by (simp add: process_eq str_lower_def matches_empty_line)

lemma info_empty: "info self [] mode = []"
  by (simp add: info_def str_split_def)

lemma route_empty_text:
  assumes "mode = ''full'' \<or> mode = ''partial''"
  shows "route mode [] (current_line, self, w) = (Inr [], self\<lparr>detected_words := {}\<rparr>, w)"
  using assms
proof
  assume "mode = ''full''"
  then show ?thesis
    by (simp add: route_def process_empty_text str_in_def sublist_code)
next
  assume "mode = ''partial''"
  then show ?thesis
    by (simp add: route_def process_empty_text str_in_def sublist_code)
qed


section \<open>Empty trigger words and empty text\<close>

text \<open>
  C7. For every text and mode the empty string is never in the detected set, and it is
  ignored altogether: the outcome, the detected set and the world are those of the
  vocabulary without it. For the empty text the detected set is empty and no callback
  is invoked (the world is unchanged), whatever the vocabulary; and the pass of the
  monitor loop that receives the empty text, in either mode, appends one empty string
  to the history and leaves the world unchanged.
\<close>

theorem empty_word_and_empty_text:
  "[] \<notin> detected_words (fst (snd (process_partial_result_and_full_result self text mode w)))
   \<and> (let p = process_partial_result_and_full_result self text mode w;
           q = process_partial_result_and_full_result
                 (self\<lparr>FORBIDDEN_WORDS := filter (\<lambda>word. word \<noteq> []) (FORBIDDEN_WORDS self)\<rparr>)
                 text mode w
       in fst q = fst p \<and> detected_words (fst (snd q)) = detected_words (fst (snd p))
          \<and> snd (snd q) = snd (snd p))
   \<and> process_partial_result_and_full_result self [] mode w
       = (Inr [], self\<lparr>detected_words := {}\<rparr>, w)
   \<and> (mode = ''full'' \<or> mode = ''partial'' \<longrightarrow>
        iteration mode (Result (Some [])) (current_line, self, env)
        = (Inr [],
           self\<lparr>detected_words := {}, audio_list := audio_list self @ [[]]\<rparr>,
           print [] (env\<lparr>reads := Suc (reads env)\<rparr>)))"
proof -
  let ?D = "filter (matches mode (str_lower text)) (FORBIDDEN_WORDS self)"
  obtain r v where f: "fire_all self ?D w = (r, v)"
    by (cases "fire_all self ?D w")
  have never: "[] \<notin> detected_words
      (fst (snd (process_partial_result_and_full_result self text mode w)))"
    using f by (cases r) (auto simp: process_eq dest: matches_nonempty)
  have ignored: "let p = process_partial_result_and_full_result self text mode w;
           q = process_partial_result_and_full_result
                 (self\<lparr>FORBIDDEN_WORDS := filter (\<lambda>word. word \<noteq> []) (FORBIDDEN_WORDS self)\<rparr>)
                 text mode w
       in fst q = fst p \<and> detected_words (fst (snd q)) = detected_words (fst (snd p))
          \<and> snd (snd q) = snd (snd p)"
  proof -
    let ?self' = "self\<lparr>FORBIDDEN_WORDS := filter (\<lambda>word. word \<noteq> []) (FORBIDDEN_WORDS self)\<rparr>"
    have D': "filter (matches mode (str_lower text)) (FORBIDDEN_WORDS ?self') = ?D"
      by (simp add: filter_matches_drop_empty del: filter_filter)
    have f': "fire_all ?self' (filter (matches mode (str_lower text)) (FORBIDDEN_WORDS ?self')) w
        = (r, v)"
      unfolding D' using f by simp
    have p: "process_partial_result_and_full_result self text mode w =
        (case r of Inl e \<Rightarrow> (Inl e, self\<lparr>detected_words := {}\<rparr>, v)
         | Inr u \<Rightarrow> (Inr (str_lower text), self\<lparr>detected_words := set ?D\<rparr>, v))"
      unfolding process_eq [of self] f by (cases r) simp_all
    have q: "process_partial_result_and_full_result ?self' text mode w =
        (case r of Inl e \<Rightarrow> (Inl e, ?self'\<lparr>detected_words := {}\<rparr>, v)
         | Inr u \<Rightarrow> (Inr (str_lower text), ?self'\<lparr>detected_words := set ?D\<rparr>, v))"
      unfolding process_eq [of ?self'] f' unfolding D' by (cases r) simp_all
    show ?thesis
      unfolding p q Let_def by (cases r) simp_all
  qed
  have pass: "iteration mode (Result (Some [])) (current_line, self, env)
        = (Inr [],
           self\<lparr>detected_words := {}, audio_list := audio_list self @ [[]]\<rparr>,
           print [] (env\<lparr>reads := Suc (reads env)\<rparr>))"
    if "mode = ''full'' \<or> mode = ''partial''"
    using that by (simp add: iteration_def Let_def route_empty_text info_empty)
  then have pass': "mode = ''full'' \<or> mode = ''partial'' \<longrightarrow>
        iteration mode (Result (Some [])) (current_line, self, env)
        = (Inr [],
           self\<lparr>detected_words := {}, audio_list := audio_list self @ [[]]\<rparr>,
           print [] (env\<lparr>reads := Suc (reads env)\<rparr>))"
    by (rule impI)
  show ?thesis
    by (rule conjI [OF never conjI [OF ignored conjI [OF process_empty_text pass']]])
qed

text \<open>
  The vocabulary \<^verbatim>\<open>{"", "right"}\<close> with a callback for each word: the text
  \<^verbatim>\<open>"right"\<close> taps \<^verbatim>\<open>d\<close> only, and the empty text in the loop taps nothing and is
  recorded.
\<close>

theorem empty_word_and_empty_text_blank:
  "process_partial_result_and_full_result blank_monitor ''right'' ''partial'' []
     = (Inr ''right'', blank_monitor\<lparr>detected_words := {''right''}\<rparr>, [''d''])
   \<and> iteration ''partial'' (Result (Some [])) (''right'', blank_monitor, fresh_env [])
     = (Inr [], blank_monitor\<lparr>detected_words := {}, audio_list := [[]]\<rparr>,
        (fresh_env [])\<lparr>stdout := [[]], reads := 1\<rparr>)"
proof -
  have low: "str_lower ''right'' = ''right''"
    by (simp add: str_lower_def lower_char_def)
  have hit: "str_in ''right'' ''right''" and blank: "str_in [] ''right''"
    by (simp_all add: str_in_def)
  have run: "process_partial_result_and_full_result blank_monitor ''right'' ''partial'' []
     = (Inr ''right'', blank_monitor\<lparr>detected_words := {''right''}\<rparr>, [''d''])"
    by (simp add: process_partial_result_and_full_result_def Let_def blank_monitor_fields
          detect_and_fire_def full_cond_def partial_cond_def low hit blank
          execute_callbacks_def tap_def)
  from empty_word_and_empty_text
         [of blank_monitor "''right''" "''partial''" "[]" "''right''" "fresh_env []"]
  show ?thesis
    by (simp add: run blank_monitor_fields print_def fresh_env_def)
qed

section \<open>Splitting and joining\<close>

lemma isspace_blank [simp]: "isspace CHR '' ''"
  by (simp add: isspace_def)

lemma split_from_tokens:
  assumes "\<forall>c \<in> set tok. \<not> isspace c" and "t \<in> set (split_from tok s)"
  shows "t \<noteq> [] \<and> (\<forall>c \<in> set t. \<not> isspace c)"
  using assms
proof (induction s arbitrary: tok)
  case Nil
  then show ?case by (auto split: if_splits)
next
  case (Cons c cs)
  show ?case
  proof (cases "isspace c")
    case True
    with Cons.prems have "t = tok \<and> tok \<noteq> [] \<or> t \<in> set (split_from [] cs)"
      by (auto split: if_splits)
    then show ?thesis
    proof
      assume "t = tok \<and> tok \<noteq> []"
      with Cons.prems(1) show ?thesis by simp
    next
      assume "t \<in> set (split_from [] cs)"
      then show ?thesis
        using Cons.IH [of "[]"] by simp
    qed
  next
    case False
    with Cons.prems have "t \<in> set (split_from (tok @ [c]) cs)"
      by simp
    moreover from False Cons.prems(1) have "\<forall>d \<in> set (tok @ [c]). \<not> isspace d"
      by simp
    ultimately show ?thesis
      by (rule Cons.IH [rotated])
  qed
qed

lemma str_split_tokens:
  "t \<in> set (str_split s) \<Longrightarrow> t \<noteq> [] \<and> (\<forall>c \<in> set t. \<not> isspace c)"
  unfolding str_split_def by (rule split_from_tokens [of "[]"]) simp_all

lemma split_from_token:
  "\<forall>c \<in> set t. \<not> isspace c \<Longrightarrow> split_from tok (t @ s) = split_from (tok @ t) s"
  by (induction t arbitrary: tok) simp_all

lemma str_split_join:
  assumes "\<forall>t \<in> set ws. t \<noteq> [] \<and> (\<forall>c \<in> set t. \<not> isspace c)"
  shows "str_split (str_join '' '' ws) = ws"
  using assms
proof (induction "'' ''" ws rule: str_join.induct)
  case 1
  show ?case by (simp add: str_split_def)
next
  case (2 t)
  then have "split_from [] (t @ []) = split_from ([] @ t) []"
    by (intro split_from_token) simp
  with 2 show ?case by (simp add: str_split_def)
next
  case (3 t v ws)
  from 3(2) have t: "\<forall>c \<in> set t. \<not> isspace c" and ne: "t \<noteq> []"
    by simp_all
  from 3 have rest: "split_from [] (str_join '' '' (v # ws)) = v # ws"
    by (simp add: str_split_def)
  have "split_from [] (t @ '' '' @ str_join '' '' (v # ws))
      = split_from ([] @ t) ('' '' @ str_join '' '' (v # ws))"
    using t by (rule split_from_token)
  also have "\<dots> = t # split_from [] (str_join '' '' (v # ws))"
    using ne by simp
  finally show ?case
    by (simp add: str_split_def rest)
qed

lemma str_split_normalized: "str_split (str_join '' '' (str_split s)) = str_split s"
  by (rule str_split_join) (auto dest: str_split_tokens)


section \<open>Annotation\<close>

lemma left_right_monitor_fields:
  "FORBIDDEN_WORDS left_right_monitor = [''left'', ''right'']"
  "WARNING_TEXT left_right_monitor = warning_default"
  "RESET_TEXT left_right_monitor = reset_default"
  by (simp_all add: left_right_monitor_def new_monitor_def)

lemma highlight_full:
  "highlight self ''full'' word fs =
     (if \<exists>f \<in> set fs. str_in f (str_lower word) \<and> str_lower word = str_lower f
      then WARNING_TEXT self @ word @ RESET_TEXT self else word)"
proof (induction fs)
  case Nil
  show ?case by simp
next
  case (Cons f fs)
  show ?case
  proof (cases "str_in f (str_lower word) \<and> str_lower word = str_lower f")
    case True
    then have "str_in f (str_lower f)" and "str_lower word = str_lower f"
      by auto
    then show ?thesis by (simp add: Let_def)
  next
    case False
    then have "highlight self ''full'' word (f # fs) = highlight self ''full'' word fs"
      by (auto simp: Let_def)
    with False Cons.IH show ?thesis by auto
  qed
qed

lemma highlight_unchanged:
  assumes "\<forall>f \<in> set fs. (mode = ''full'' \<longrightarrow> str_lower word \<noteq> str_lower f)
                       \<and> (mode = ''partial'' \<longrightarrow> \<not> str_in f (str_lower word))"
  shows "highlight self mode word fs = word"
  using assms by (induction fs) (auto simp: Let_def)

text \<open>
  C8. Let every trigger word be lowercase, as the vocabulary of the monitor is. In mode
  \<^verbatim>\<open>"full"\<close> the printed line is the tokens of the sentence, in their order and
  joined by single spaces, where a token is put between the two markers if and only
  if its lowercase form equals some trigger word; every other token, also one that
  only contains a trigger word, is printed as it is.
\<close>

theorem info_full_wraps_exact_tokens:
  assumes "\<forall>f \<in> set (FORBIDDEN_WORDS self). str_lower f = f"
  shows "info self current_sentence ''full'' =
     str_join '' ''
       (map (\<lambda>word. if \<exists>f \<in> set (FORBIDDEN_WORDS self). str_lower word = str_lower f
                     then WARNING_TEXT self @ word @ RESET_TEXT self else word)
            (str_split current_sentence))"
proof -
  have "(\<exists>f \<in> set (FORBIDDEN_WORDS self). str_in f (str_lower word) \<and> str_lower word = str_lower f)
      \<longleftrightarrow> (\<exists>f \<in> set (FORBIDDEN_WORDS self). str_lower word = str_lower f)" for word
    using assms by (auto simp: str_in_def)
  then show ?thesis
    by (simp add: info_def highlight_full)
qed

text \<open>
  The vocabulary \<^verbatim>\<open>{"left", "right"}\<close>: in \<^verbatim>\<open>"turn left now"\<close> only \<^verbatim>\<open>left\<close> is
  wrapped; \<^verbatim>\<open>LEFT\<close> is wrapped as it is written and \<^verbatim>\<open>leftover\<close> is not.
\<close>

theorem info_full_turn_left_now:
  "info left_right_monitor ''turn left now'' ''full''
     = ''turn '' @ warning_default @ ''left'' @ reset_default @ '' now''
   \<and> info left_right_monitor ''go  LEFT leftover'' ''full''
     = ''go '' @ warning_default @ ''LEFT'' @ reset_default @ '' leftover''"
proof -
  have voc: "\<forall>f \<in> set (FORBIDDEN_WORDS left_right_monitor). str_lower f = f"
    by (simp add: left_right_monitor_fields str_lower_def lower_char_def)
  have s1: "str_split ''turn left now'' = [''turn'', ''left'', ''now'']"
    by (simp add: str_split_def isspace_def)
  have s2: "str_split ''go  LEFT leftover'' = [''go'', ''LEFT'', ''leftover'']"
    by (simp add: str_split_def isspace_def)
  have low: "str_lower ''turn'' = ''turn''" "str_lower ''left'' = ''left''"
    "str_lower ''now'' = ''now''" "str_lower ''right'' = ''right''"
    "str_lower ''go'' = ''go''" "str_lower ''LEFT'' = ''left''"
    "str_lower ''leftover'' = ''leftover''"
    by code_simp+
  from info_full_wraps_exact_tokens [OF voc] show ?thesis
    by (simp add: s1 s2 left_right_monitor_fields low)
qed

text \<open>
  C9. If no token of the text matches a trigger word under the mode (in mode
  \<^verbatim>\<open>"full"\<close>: its lowercase form equals the lowercase trigger; in mode
  \<^verbatim>\<open>"partial"\<close>: its lowercase form contains the trigger), the printed line is the
  tokens of the text joined by single spaces, and it has the tokens of the text.
\<close>

theorem info_without_match:
  assumes "\<forall>word \<in> set (str_split text). \<forall>f \<in> set (FORBIDDEN_WORDS self).
             (mode = ''full'' \<longrightarrow> str_lower word \<noteq> str_lower f)
           \<and> (mode = ''partial'' \<longrightarrow> \<not> str_in f (str_lower word))"
  shows "info self text mode = str_join '' '' (str_split text)
       \<and> str_split (info self text mode) = str_split text"
proof -
  have "map (\<lambda>word. highlight self mode word (FORBIDDEN_WORDS self)) (str_split text)
      = str_split text"
    using assms by (intro map_idI highlight_unchanged) blast
  then have "info self text mode = str_join '' '' (str_split text)"
    by (simp add: info_def)
  then show ?thesis
    by (simp add: str_split_normalized)
qed

text \<open>
  The text \<^verbatim>\<open>"  turn   back now "\<close> has no token with \<^verbatim>\<open>left\<close> or \<^verbatim>\<open>right\<close> in
  it: in mode \<^verbatim>\<open>"partial"\<close> it is printed with its blanks normalized.
\<close>

theorem info_without_match_turn_back:
  "info left_right_monitor ''  turn   back now '' ''partial'' = ''turn back now''
   \<and> str_split ''turn back now'' = str_split ''  turn   back now ''"
proof -
  have s: "str_split ''  turn   back now '' = [''turn'', ''back'', ''now'']"
    by (simp add: str_split_def isspace_def)
  have low: "str_lower ''turn'' = ''turn''" "str_lower ''back'' = ''back''"
    "str_lower ''now'' = ''now''"
    by code_simp+
  have none: "\<forall>word \<in> set (str_split ''  turn   back now '').
      \<forall>f \<in> set (FORBIDDEN_WORDS left_right_monitor).
             (''partial'' = ''full'' \<longrightarrow> str_lower word \<noteq> str_lower f)
           \<and> (''partial'' = ''partial'' \<longrightarrow> \<not> str_in f (str_lower word))"
    by (simp add: s left_right_monitor_fields low str_in_def sublist_code)
  have t: "str_split ''turn back now'' = [''turn'', ''back'', ''now'']"
    by (simp add: str_split_def isspace_def)
  from info_without_match [OF none] show ?thesis
    by (simp add: s t)
qed

section \<open>What a pass of the loop leaves unchanged\<close>

lemma process_only_detected:
  assumes "process_partial_result_and_full_result self text mode w = (r, self', w')"
  shows "self' = self\<lparr>detected_words := detected_words self'\<rparr>"
proof -
  obtain q v where f:
    "fire_all self (filter (matches mode (str_lower text)) (FORBIDDEN_WORDS self)) w = (q, v)"
    by (cases "fire_all self (filter (matches mode (str_lower text)) (FORBIDDEN_WORDS self)) w")
  from assms f show ?thesis
    by (cases q) (auto simp: process_eq)
qed

lemma route_only_detected:
  assumes "route mode text (current_line, self, w) = (r, self', w')"
  shows "self' = self\<lparr>detected_words := detected_words self'\<rparr>"
proof -
  obtain r1 self1 w1 where first:
    "(if str_in mode ''full''
      then process_partial_result_and_full_result self text mode w
      else (Inr current_line, self, w)) = (r1, self1, w1)"
    by (metis prod_cases3)
  have one: "self1 = self\<lparr>detected_words := detected_words self1\<rparr>"
  proof (cases "str_in mode ''full''")
    case True
    with first show ?thesis
      by (auto dest: process_only_detected)
  next
    case False
    with first show ?thesis by auto
  qed
  show ?thesis
  proof (cases r1)
    case (Inl e)
    with assms first have "self' = self1"
      by (simp add: route_def)
    with one show ?thesis by simp
  next
    case (Inr line1)
    show ?thesis
    proof (cases "str_in mode ''partial''")
      case True
      with assms first Inr
      have "process_partial_result_and_full_result self1 text mode w1 = (r, self', w')"
        by (simp add: route_def)
      then have "self' = self1\<lparr>detected_words := detected_words self'\<rparr>"
        by (rule process_only_detected)
      with one show ?thesis
        by (metis monitor.update_convs(2) monitor.surjective)
    next
      case False
      with assms first Inr have "self' = self1"
        by (simp add: route_def)
      with one show ?thesis by simp
    qed
  qed
qed


lemma iteration_frame:
  assumes "iteration mode ch (current_line, self, env) = (r, self', env')"
  shows "self' = self\<lparr>detected_words := detected_words self', audio_list := audio_list self'\<rparr>"
    and "env' = env\<lparr>reads := Suc (reads env), world := world env', stdout := stdout env'\<rparr>"
    and "audio_list self' =
           audio_list self @ (case r of Inl e \<Rightarrow> [] | Inr line \<Rightarrow> if is_final ch then [line] else [])"
proof -
  have "self' = self\<lparr>detected_words := detected_words self', audio_list := audio_list self'\<rparr>
      \<and> env' = env\<lparr>reads := Suc (reads env), world := world env', stdout := stdout env'\<rparr>
      \<and> audio_list self' =
           audio_list self @ (case r of Inl e \<Rightarrow> [] | Inr line \<Rightarrow> if is_final ch then [line] else [])"
  proof (cases ch)
    case (Raises e)
    with assms show ?thesis
      by (auto simp: iteration_def)
  next
    case NoResult
    with assms show ?thesis
      by (auto simp: iteration_def)
  next
    case (Result x)
    obtain r2 self2 w2 where inner:
      "(case x of None \<Rightarrow> (Inr current_line, self, world (env\<lparr>reads := Suc (reads env)\<rparr>))
        | Some text \<Rightarrow> route mode text (current_line, self, world (env\<lparr>reads := Suc (reads env)\<rparr>)))
       = (r2, self2, w2)"
      by (metis prod_cases3)
    have "self2 = self\<lparr>detected_words := detected_words self2\<rparr>"
    proof (cases x)
      case None
      with inner show ?thesis by auto
    next
      case (Some utterance)
      with inner show ?thesis
        by (auto dest: route_only_detected)
    qed
    then obtain X where two: "self2 = self\<lparr>detected_words := X\<rparr>" ..
    show ?thesis
    proof (cases r2)
      case (Inl e)
      with assms Result inner
      have "r = Inl e" and "self' = self2" and "env' = env\<lparr>reads := Suc (reads env), world := w2\<rparr>"
        by (simp_all add: iteration_def Let_def)
      then show ?thesis
        by (simp add: two)
    next
      case (Inr line)
      with assms Result inner
      have "r = Inr line"
        and "self' = self2\<lparr>audio_list := audio_list self2 @ [line]\<rparr>"
        and "env' = print (info (self2\<lparr>audio_list := audio_list self2 @ [line]\<rparr>) line mode)
                      (env\<lparr>reads := Suc (reads env), world := w2\<rparr>)"
        by (auto simp: iteration_def Let_def)
      then show ?thesis
        by (simp add: two Result print_def)
    qed
  qed
  then show "self' = self\<lparr>detected_words := detected_words self', audio_list := audio_list self'\<rparr>"
    and "env' = env\<lparr>reads := Suc (reads env), world := world env', stdout := stdout env'\<rparr>"
    and "audio_list self' =
           audio_list self @ (case r of Inl e \<Rightarrow> [] | Inr line \<Rightarrow> if is_final ch then [line] else [])"
    by blast+
qed


lemma iteration_keeps:
  assumes "iteration mode ch (current_line, self, env) = (r, self', env')"
  shows "stream self' = stream self" and "mic self' = mic self"
    and "recognizer self' = recognizer self"
    and "stream_closes env' = stream_closes env"
    and "mic_terminates env' = mic_terminates env"
    and "reads env' = Suc (reads env)"
proof -
  note f = iteration_frame [OF assms]
  show "stream self' = stream self" by (subst f(1)) simp
  show "mic self' = mic self" by (subst f(1)) simp
  show "recognizer self' = recognizer self" by (subst f(1)) simp
  show "stream_closes env' = stream_closes env" by (subst f(2)) simp
  show "mic_terminates env' = mic_terminates env" by (subst f(2)) simp
  show "reads env' = Suc (reads env)" by (subst f(2)) simp
qed

lemma loop_keeps:
  assumes "loop mode chunks (current_line, self, env) = (out, self', env')"
  shows "stream self' = stream self \<and> mic self' = mic self
       \<and> recognizer self' = recognizer self
       \<and> stream_closes env' = stream_closes env
       \<and> mic_terminates env' = mic_terminates env"
  using assms
proof (induction chunks arbitrary: current_line self env)
  case Nil
  then show ?case by simp
next
  case (Cons ch chs)
  obtain r self1 env1 where it: "iteration mode ch (current_line, self, env) = (r, self1, env1)"
    by (metis prod_cases3)
  note keep = iteration_keeps [OF it]
  show ?case
  proof (cases r)
    case (Inl e)
    with Cons.prems it have "self' = self1" and "env' = env1"
      by simp_all
    with keep show ?thesis by simp
  next
    case (Inr line)
    with Cons.prems it have "loop mode chs (line, self1, env1) = (out, self', env')"
      by simp
    from Cons.IH [OF this] keep show ?thesis by simp
  qed
qed

lemma loop_running:
  assumes "loop mode chunks (current_line, self, env) = (None, self', env')"
  shows "length (audio_list self') = length (audio_list self) + length (filter is_final chunks)
       \<and> reads env' = reads env + length chunks"
  using assms
proof (induction chunks arbitrary: current_line self env)
  case Nil
  then show ?case by simp
next
  case (Cons ch chs)
  obtain r self1 env1 where it: "iteration mode ch (current_line, self, env) = (r, self1, env1)"
    by (metis prod_cases3)
  show ?case
  proof (cases r)
    case (Inl e)
    with Cons.prems it show ?thesis by simp
  next
    case (Inr line)
    with Cons.prems it have "loop mode chs (line, self1, env1) = (None, self', env')"
      by simp
    from Cons.IH [OF this] iteration_frame(3) [OF it] iteration_keeps(6) [OF it] Inr
    show ?thesis by simp
  qed
qed

section \<open>Starting and stopping the monitor\<close>

lemma highlight_audio_list [simp]:
  "highlight (self\<lparr>audio_list := xs\<rparr>) mode word fs = highlight self mode word fs"
  by (induction fs) (simp_all add: Let_def)

lemma info_audio_list [simp]:
  "info (self\<lparr>audio_list := xs\<rparr>) current_sentence mode = info self current_sentence mode"
  by (simp add: info_def)

lemma startup_frame:
  assumes "(if \<not> (recognizer self \<and> stream self \<and> mic self)
            then initialize_audio_stream self env
            else (Inr (), self, env)) = (r, self1, env1)"
  shows "audio_list self1 = audio_list self" and "detected_words self1 = detected_words self"
    and "world env1 = world env" and "reads env1 = reads env"
    and "stream_closes env1 = stream_closes env" and "mic_terminates env1 = mic_terminates env"
    and "r = Inr () \<Longrightarrow> recognizer self1 \<and> stream self1 \<and> mic self1"
    and "recognizer self \<and> stream self \<and> mic self \<or> init_behaviour env = InitOk \<Longrightarrow> r = Inr ()"
  using assms
  by (auto simp: initialize_audio_stream_def init_failed_def print_def
           split: if_splits init_outcome.splits)

lemma cleanup_both:
  "stream self \<Longrightarrow> mic self \<Longrightarrow>
   stream_closes (cleanup self env) = Suc (stream_closes env)
   \<and> mic_terminates (cleanup self env) = Suc (mic_terminates env)"
  by (simp add: cleanup_def)

lemma print_counters [simp]:
  "stream_closes (print line env) = stream_closes env"
  "mic_terminates (print line env) = mic_terminates env"
  "reads (print line env) = reads env"
  "world (print line env) = world env"
  by (simp_all add: print_def)


lemma monitor_speech_invalid:
  assumes "mode \<noteq> ''full''" and "mode \<noteq> ''partial''"
      and "(if \<not> (recognizer self \<and> stream self \<and> mic self)
            then initialize_audio_stream self env
            else (Inr (), self, env)) = (r, self1, env1)"
  shows "monitor_speech self mode chunks env =
         (Some (Inl (case r of Inl e \<Rightarrow> e | Inr u \<Rightarrow> invalid_mode mode)), self1, env1)"
  using assms by (cases r) (simp_all add: monitor_speech_def)

text \<open>
  C5. For every mode other than \<^verbatim>\<open>"full"\<close> and \<^verbatim>\<open>"partial"\<close>, whatever the audio
  device would deliver, \<^verbatim>\<open>monitor_speech\<close> raises: it neither returns nor enters the
  loop. No chunk is read, no callback runs and the history is unchanged. The exception
  is the \<^verbatim>\<open>ValueError\<close> for the mode whenever the monitor holds its three resources or
  the initialization that comes first succeeds.
\<close>

theorem invalid_mode_raises:
  assumes "mode \<noteq> ''full''" and "mode \<noteq> ''partial''"
  shows "(\<exists>e. fst (monitor_speech self mode chunks env) = Some (Inl e))
     \<and> reads (snd (snd (monitor_speech self mode chunks env))) = reads env
     \<and> world (snd (snd (monitor_speech self mode chunks env))) = world env
     \<and> audio_list (fst (snd (monitor_speech self mode chunks env))) = audio_list self
     \<and> (recognizer self \<and> stream self \<and> mic self \<or> init_behaviour env = InitOk \<longrightarrow>
          fst (monitor_speech self mode chunks env) = Some (Inl (invalid_mode mode)))"
proof -
  obtain r self1 env1 where start:
    "(if \<not> (recognizer self \<and> stream self \<and> mic self)
      then initialize_audio_stream self env
      else (Inr (), self, env)) = (r, self1, env1)"
    by (metis prod_cases3)
  note run = monitor_speech_invalid [OF assms start]
  note frame = startup_frame [OF start]
  have "recognizer self \<and> stream self \<and> mic self \<or> init_behaviour env = InitOk \<longrightarrow>
      fst (monitor_speech self mode chunks env) = Some (Inl (invalid_mode mode))"
    using frame(8) by (auto simp: run)
  then show ?thesis
    by (simp add: run frame(1,3,4))
qed

text \<open>
  A new monitor started in the mode \<^verbatim>\<open>"strict"\<close>, with a device that would deliver a
  result: the \<^verbatim>\<open>ValueError\<close> is raised and nothing is read.
\<close>

theorem invalid_mode_raises_strict:
  "fst (monitor_speech left_right_monitor ''strict'' [Result (Some ''left'')] (fresh_env []))
     = Some (Inl (ValueError (''Invalid mode: strict. Use '' @ [CHR 0x27] @ ''full''
                  @ [CHR 0x27] @ '', '' @ [CHR 0x27] @ ''partial'' @ [CHR 0x27])))
   \<and> reads (snd (snd (monitor_speech left_right_monitor ''strict'' [Result (Some ''left'')]
              (fresh_env [])))) = 0"
proof -
  have ok: "recognizer left_right_monitor \<and> stream left_right_monitor \<and> mic left_right_monitor
      \<or> init_behaviour (fresh_env ([] :: string list)) = InitOk"
    by (simp add: fresh_env_def)
  from invalid_mode_raises
         [of "''strict''" left_right_monitor "[Result (Some ''left'')]" "fresh_env []"] ok
  show ?thesis
    by (simp add: invalid_mode_def fresh_env_def)
qed


text \<open>
  When the loop has been entered and ends, by the user's interrupt or by any other
  exception, \<^verbatim>\<open>finally: self.cleanup()\<close> closes the stream once and terminates the
  audio interface once.
\<close>

lemma cleanup_once_after_loop:
  assumes "mode = ''full'' \<or> mode = ''partial''"
      and "recognizer self \<and> stream self \<and> mic self \<or> init_behaviour env = InitOk"
      and "monitor_speech self mode chunks env = (Some out, self', env')"
  shows "stream_closes env' = Suc (stream_closes env)
       \<and> mic_terminates env' = Suc (mic_terminates env)"
proof -
  obtain r self1 env1 where start:
    "(if \<not> (recognizer self \<and> stream self \<and> mic self)
      then initialize_audio_stream self env
      else (Inr (), self, env)) = (r, self1, env1)"
    by (metis prod_cases3)
  note frame = startup_frame [OF start]
  from frame(8) assms(2) have r: "r = Inr ()" by simp
  with frame(7) have held: "recognizer self1 \<and> stream self1 \<and> mic self1" by simp
  let ?env = "print ''Listening for forbidden words -> mode... (Press Ctrl+C to stop)'' env1"
  obtain ended self2 env2 where lp: "loop mode chunks ([], self1, ?env) = (ended, self2, env2)"
    by (metis prod_cases3)
  from loop_keeps [OF lp] held frame(5,6)
  have keep: "stream self2" "mic self2" "stream_closes env2 = stream_closes env"
    "mic_terminates env2 = mic_terminates env"
    by simp_all
  from assms(1) have valid: "mode \<in> {''full'', ''partial''}" by auto
  show ?thesis
  proof (cases ended)
    case None
    with assms(3) start r valid lp show ?thesis
      by (simp add: monitor_speech_def)
  next
    case (Some e)
    with assms(3) start r valid lp
    have "env' = cleanup self2 (print (CHR 0x0A # ''Stopping...'') env2)
        \<or> env' = cleanup self2 (print (''Error during processing: '' @ str_of_exn e) env2)
        \<or> env' = cleanup self2 env2"
      by (auto simp: monitor_speech_def split: if_splits)
    with keep show ?thesis
      by (auto simp: cleanup_both)
  qed
qed

text \<open>
  C6 at the path that leaves before the loop: a new monitor is started in the mode
  \<^verbatim>\<open>"strict"\<close>, the initialization succeeds and acquires the stream and the audio
  interface, the \<^verbatim>\<open>ValueError\<close> is raised outside the \<^verbatim>\<open>try\<close>, and neither the
  stream is closed nor the audio interface terminated.
\<close>

theorem invalid_mode_skips_cleanup:
  "monitor_speech left_right_monitor ''strict'' [Raises KeyboardInterrupt] (fresh_env [])
     = (Some (Inl (invalid_mode ''strict'')),
        left_right_monitor\<lparr>recognizer := True, mic := True, stream := True\<rparr>,
        fresh_env [])
   \<and> stream_closes (fresh_env ([] :: string list)) = 0
   \<and> mic_terminates (fresh_env ([] :: string list)) = 0"
  by (simp add: monitor_speech_def initialize_audio_stream_def left_right_monitor_def
        new_monitor_def fresh_env_def)


text \<open>The same monitor and device in the mode \<^verbatim>\<open>"full"\<close>: the interrupt is handled and cleanup runs.\<close>

lemma interrupt_runs_cleanup:
  "monitor_speech left_right_monitor ''full'' [Raises KeyboardInterrupt] (fresh_env [])
     = (Some (Inr ()),
        left_right_monitor\<lparr>recognizer := True, mic := True, stream := True\<rparr>,
        (fresh_env [])\<lparr>stdout := [''Listening for forbidden words -> mode... (Press Ctrl+C to stop)'',
                                  CHR 0x0A # ''Stopping...''],
                       reads := 1, stream_closes := 1, mic_terminates := 1\<rparr>)"
  by (simp add: monitor_speech_def initialize_audio_stream_def left_right_monitor_def
        new_monitor_def fresh_env_def iteration_def cleanup_def print_def)

section \<open>The history\<close>

lemma monitor_speech_running:
  assumes "monitor_speech self mode chunks env = (None, self', env')"
  shows "\<exists>self1 env1. audio_list self1 = audio_list self \<and>
           loop mode chunks ([], self1, env1) = (None, self', env')"
proof -
  obtain r self1 env1 where start:
    "(if \<not> (recognizer self \<and> stream self \<and> mic self)
      then initialize_audio_stream self env
      else (Inr (), self, env)) = (r, self1, env1)"
    by (metis prod_cases3)
  let ?env = "print ''Listening for forbidden words -> mode... (Press Ctrl+C to stop)'' env1"
  obtain ended self2 env2 where lp: "loop mode chunks ([], self1, ?env) = (ended, self2, env2)"
    by (metis prod_cases3)
  from assms start lp have "ended = None \<and> self2 = self' \<and> env2 = env'"
    by (cases r; cases ended) (auto simp: monitor_speech_def split: if_splits)
  with lp startup_frame(1) [OF start] show ?thesis
    by blast
qed

lemma fire_all_returns:
  assumes "\<forall>word a w. callbacks self word = Some a \<longrightarrow> fst (a w) = Inr ()"
  shows "fst (fire_all self ws w) = Inr ()"
proof (induction ws arbitrary: w)
  case Nil
  show ?case by simp
next
  case (Cons word rest)
  obtain r w1 where ex: "execute_callbacks self word w = (r, w1)"
    by (cases "execute_callbacks self word w")
  have "r = Inr ()"
  proof (cases "callbacks self word")
    case None
    with ex show ?thesis by (simp add: execute_callbacks_def)
  next
    case (Some a)
    with assms have "fst (a w) = Inr ()" by blast
    with ex Some show ?thesis by (simp add: execute_callbacks_def)
  qed
  with ex show ?case by (simp add: Cons.IH)
qed

lemma process_never_raises:
  assumes "\<forall>word a w. callbacks self word = Some a \<longrightarrow> fst (a w) = Inr ()"
  shows "fst (process_partial_result_and_full_result self text mode w) = Inr (str_lower text)"
proof -
  let ?D = "filter (matches mode (str_lower text)) (FORBIDDEN_WORDS self)"
  obtain r v where f: "fire_all self ?D w = (r, v)"
    by (cases "fire_all self ?D w")
  with fire_all_returns [OF assms, of ?D w] have "r = Inr ()" by simp
  with f show ?thesis by (simp add: process_eq)
qed

lemma route_never_raises:
  assumes "\<forall>word a w. callbacks self word = Some a \<longrightarrow> fst (a w) = Inr ()"
  shows "\<exists>line. fst (route mode text (current_line, self, w)) = Inr line"
proof -
  obtain r1 self1 w1 where first:
    "(if str_in mode ''full''
      then process_partial_result_and_full_result self text mode w
      else (Inr current_line, self, w)) = (r1, self1, w1)"
    by (metis prod_cases3)
  have one: "\<exists>line1. r1 = Inr line1"
    using first process_never_raises [OF assms, of "text" mode w]
    by (auto split: if_splits)
  then obtain line1 where r1: "r1 = Inr line1" ..
  have "self1 = self\<lparr>detected_words := detected_words self1\<rparr>"
    using first by (auto split: if_splits dest: process_only_detected)
  then obtain X where "self1 = self\<lparr>detected_words := X\<rparr>" ..
  then have "callbacks self1 = callbacks self"
    by simp
  with assms have "\<forall>word a w. callbacks self1 word = Some a \<longrightarrow> fst (a w) = Inr ()"
    by simp
  from process_never_raises [OF this, of "text" mode w1] first r1 show ?thesis
    by (simp add: route_def)
qed


lemma iteration_never_raises:
  assumes "\<forall>word a w. callbacks self word = Some a \<longrightarrow> fst (a w) = Inr ()"
      and "iteration mode ch (current_line, self, env) = (r, self', env')"
  shows "(\<exists>e. r = Inl e) \<longleftrightarrow> raises ch" and "callbacks self' = callbacks self"
proof -
  from iteration_frame(1) [OF assms(2)]
  obtain X Y where "self' = self\<lparr>detected_words := X, audio_list := Y\<rparr>" ..
  then show "callbacks self' = callbacks self" by simp
  show "(\<exists>e. r = Inl e) \<longleftrightarrow> raises ch"
  proof (cases ch)
    case (Raises e)
    with assms(2) show ?thesis by (auto simp: iteration_def)
  next
    case NoResult
    with assms(2) show ?thesis by (auto simp: iteration_def)
  next
    case (Result x)
    show ?thesis
    proof (cases x)
      case None
      with Result assms(2) show ?thesis by (auto simp: iteration_def Let_def)
    next
      case (Some utterance)
      obtain r2 self2 w2 where inner:
        "route mode utterance (current_line, self, world (env\<lparr>reads := Suc (reads env)\<rparr>))
           = (r2, self2, w2)"
        by (metis prod_cases3)
      with route_never_raises [OF assms(1), of mode utterance current_line]
      obtain line where "r2 = Inr line"
        by (metis fst_conv)
      with Result Some inner assms(2) show ?thesis
        by (auto simp: iteration_def Let_def)
    qed
  qed
qed

lemma loop_counts:
  assumes "\<forall>word a w. callbacks self word = Some a \<longrightarrow> fst (a w) = Inr ()"
      and "loop mode chunks (current_line, self, env) = (out, self', env')"
  shows "length (audio_list self') =
         length (audio_list self)
         + length (filter is_final (takeWhile (\<lambda>ch. \<not> raises ch) chunks))"
  using assms
proof (induction chunks arbitrary: current_line self env)
  case Nil
  then show ?case by simp
next
  case (Cons ch chs)
  obtain r self1 env1 where it: "iteration mode ch (current_line, self, env) = (r, self1, env1)"
    by (metis prod_cases3)
  note never = iteration_never_raises [OF Cons.prems(1) it]
  note grow = iteration_frame(3) [OF it]
  show ?case
  proof (cases r)
    case (Inl e)
    with never(1) have "raises ch" by blast
    moreover from Inl Cons.prems(2) it have "self' = self1" by simp
    ultimately show ?thesis using grow Inl by simp
  next
    case (Inr line)
    with never(1) have quiet: "\<not> raises ch" by blast
    from Inr Cons.prems(2) it have "loop mode chs (line, self1, env1) = (out, self', env')"
      by simp
    moreover from never(2) Cons.prems(1)
    have "\<forall>word a w. callbacks self1 word = Some a \<longrightarrow> fst (a w) = Inr ()"
      by simp
    ultimately have "length (audio_list self') =
         length (audio_list self1)
         + length (filter is_final (takeWhile (\<lambda>ch. \<not> raises ch) chs))"
      by (rule Cons.IH [rotated])
    with grow Inr quiet show ?thesis by simp
  qed
qed


lemma startup_callbacks:
  assumes "(if \<not> (recognizer self \<and> stream self \<and> mic self)
            then initialize_audio_stream self env
            else (Inr (), self, env)) = (r, self1, env1)"
  shows "callbacks self1 = callbacks self"
  using assms
  by (auto simp: initialize_audio_stream_def split: if_splits init_outcome.splits)

lemma monitor_speech_counts:
  assumes "\<forall>word a w. callbacks self word = Some a \<longrightarrow> fst (a w) = Inr ()"
      and "mode = ''full'' \<or> mode = ''partial''"
      and "recognizer self \<and> stream self \<and> mic self \<or> init_behaviour env = InitOk"
      and "monitor_speech self mode chunks env = (out, self', env')"
  shows "length (audio_list self') =
         length (audio_list self)
         + length (filter is_final (takeWhile (\<lambda>ch. \<not> raises ch) chunks))"
proof -
  obtain r self1 env1 where start:
    "(if \<not> (recognizer self \<and> stream self \<and> mic self)
      then initialize_audio_stream self env
      else (Inr (), self, env)) = (r, self1, env1)"
    by (metis prod_cases3)
  note frame = startup_frame [OF start]
  from frame(8) assms(3) have r: "r = Inr ()" by simp
  let ?env = "print ''Listening for forbidden words -> mode... (Press Ctrl+C to stop)'' env1"
  obtain ended self2 env2 where lp: "loop mode chunks ([], self1, ?env) = (ended, self2, env2)"
    by (metis prod_cases3)
  from assms(2) have valid: "mode \<in> {''full'', ''partial''}" by auto
  from assms(4) start r valid lp have "self' = self2"
    by (cases ended) (auto simp: monitor_speech_def split: if_splits)
  moreover from assms(1) startup_callbacks [OF start]
  have "\<forall>word a w. callbacks self1 word = Some a \<longrightarrow> fst (a w) = Inr ()"
    by simp
  from loop_counts [OF this lp]
  have "length (audio_list self2) =
         length (audio_list self1)
         + length (filter is_final (takeWhile (\<lambda>ch. \<not> raises ch) chunks))" .
  ultimately show ?thesis
    by (simp add: frame(1))
qed

text \<open>
  C10. A pass of the loop that receives a finalized result without a text entry
  appends the line processed before, unchanged, and keeps it as the current line.
  While \<^verbatim>\<open>monitor_speech\<close> is listening (no pass has ended in an exception), the history
  has grown by exactly one entry for each finalized result received, with or without
  text. When no registered callback raises, the same count holds for every run of a
  monitor started in a valid mode with its resources held or acquired, also one that
  has stopped: one entry for each finalized result received before the read that
  raised.
\<close>

theorem history_counts_finalized_results:
  "iteration mode (Result None) (current_line, self, env)
     = (Inr current_line,
        self\<lparr>audio_list := audio_list self @ [current_line]\<rparr>,
        print (info self current_line mode) (env\<lparr>reads := Suc (reads env)\<rparr>))
   \<and> (monitor_speech self mode chunks env = (None, self', env') \<longrightarrow>
        length (audio_list self')
          = length (audio_list self) + length (filter is_final chunks))
   \<and> ((\<forall>word a w. callbacks self word = Some a \<longrightarrow> fst (a w) = Inr ())
        \<and> (mode = ''full'' \<or> mode = ''partial'')
        \<and> (recognizer self \<and> stream self \<and> mic self \<or> init_behaviour env = InitOk)
        \<and> monitor_speech self mode chunks env = (out, self', env') \<longrightarrow>
        length (audio_list self')
          = length (audio_list self)
            + length (filter is_final (takeWhile (\<lambda>ch. \<not> raises ch) chunks)))"
proof -
  have one: "iteration mode (Result None) (current_line, self, env)
     = (Inr current_line,
        self\<lparr>audio_list := audio_list self @ [current_line]\<rparr>,
        print (info self current_line mode) (env\<lparr>reads := Suc (reads env)\<rparr>))"
    by (simp add: iteration_def Let_def)
  have two: "monitor_speech self mode chunks env = (None, self', env') \<longrightarrow>
        length (audio_list self')
          = length (audio_list self) + length (filter is_final chunks)"
  proof
    assume "monitor_speech self mode chunks env = (None, self', env')"
    then obtain self1 env1 where "audio_list self1 = audio_list self"
      and "loop mode chunks ([], self1, env1) = (None, self', env')"
      using monitor_speech_running by blast
    then show "length (audio_list self')
          = length (audio_list self) + length (filter is_final chunks)"
      by (auto dest: loop_running)
  qed
  have three: "(\<forall>word a w. callbacks self word = Some a \<longrightarrow> fst (a w) = Inr ())
        \<and> (mode = ''full'' \<or> mode = ''partial'')
        \<and> (recognizer self \<and> stream self \<and> mic self \<or> init_behaviour env = InitOk)
        \<and> monitor_speech self mode chunks env = (out, self', env') \<longrightarrow>
        length (audio_list self')
          = length (audio_list self)
            + length (filter is_final (takeWhile (\<lambda>ch. \<not> raises ch) chunks))"
    using monitor_speech_counts [of self mode env chunks out self' env'] by blast
  show ?thesis
    by (rule conjI [OF one conjI [OF two three]])
qed

text \<open>
  Two runs of the monitor for \<^verbatim>\<open>{"left", "right"}\<close>. The first is still listening
  after four chunks, three of them finalized results and two of these without text:
  the history has three entries, the first the empty string and the last a repetition
  of the second. The second is stopped by the user after two finalized results.
\<close>

theorem history_counts_finalized_results_run:
  "fst (monitor_speech left_right_monitor ''full''
          [Result None, Result (Some ''Go LEFT''), NoResult, Result None] (fresh_env [])) = None
   \<and> audio_list (fst (snd (monitor_speech left_right_monitor ''full''
          [Result None, Result (Some ''Go LEFT''), NoResult, Result None] (fresh_env []))))
       = [[], ''go left'', ''go left'']
   \<and> fst (monitor_speech left_right_monitor ''full''
          [Result (Some ''left''), Result None, Raises KeyboardInterrupt, Result None]
          (fresh_env [])) = Some (Inr ())
   \<and> length (audio_list (fst (snd (monitor_speech left_right_monitor ''full''
          [Result (Some ''left''), Result None, Raises KeyboardInterrupt, Result None]
          (fresh_env []))))) = 2"
proof -
  let ?run = "monitor_speech left_right_monitor ''full''
          [Result None, Result (Some ''Go LEFT''), NoResult, Result None] (fresh_env [])"
  let ?stopped = "monitor_speech left_right_monitor ''full''
          [Result (Some ''left''), Result None, Raises KeyboardInterrupt, Result None]
          (fresh_env [])"
  have listening: "fst ?run = None"
    by code_simp
  have history: "audio_list (fst (snd ?run)) = [[], ''go left'', ''go left'']"
    by code_simp
  have returned: "fst ?stopped = Some (Inr ())"
    by code_simp
  have start: "audio_list left_right_monitor = []"
    "\<forall>word a w. callbacks left_right_monitor word = Some a \<longrightarrow> fst (a w) = Inr ()"
    "init_behaviour (fresh_env ([] :: string list)) = InitOk"
    by (simp_all add: left_right_monitor_def new_monitor_def fresh_env_def)
  from listening have "?run = (None, fst (snd ?run), snd (snd ?run))"
    by (simp add: prod_eq_iff)
  with history_counts_finalized_results
         [of "''full''" "[]" left_right_monitor "fresh_env []"
             "[Result None, Result (Some ''Go LEFT''), NoResult, Result None]"
             "fst (snd ?run)" "snd (snd ?run)"]
  have a: "length (audio_list (fst (snd ?run)))
      = length (audio_list left_right_monitor)
        + length (filter is_final [Result None, Result (Some ''Go LEFT''), NoResult, Result None])"
    by blast
  have "?stopped = (fst ?stopped, fst (snd ?stopped), snd (snd ?stopped))"
    by simp
  with start(2,3) history_counts_finalized_results
         [of "''full''" "[]" left_right_monitor "fresh_env []"
             "[Result (Some ''left''), Result None, Raises KeyboardInterrupt, Result None]"
             "fst (snd ?stopped)" "snd (snd ?stopped)" "fst ?stopped"]
  have b: "length (audio_list (fst (snd ?stopped)))
      = length (audio_list left_right_monitor)
        + length (filter is_final (takeWhile (\<lambda>ch. \<not> raises ch)
            [Result (Some ''left''), Result None, Raises KeyboardInterrupt, Result None]))"
    by blast
  from a b listening history returned start(1) show ?thesis
    by simp
qed

end
